theory Spec2Isabelle
  imports Complex_Main
begin

section \<open>The snake game of game.js as a state machine\<close>

text \<open>
  The script keeps its whole state in module-level variables and changes it in event
  handlers: the interval timer calls \<^verbatim>\<open>gameUpdate\<close> (which calls \<^verbatim>\<open>update\<close>), key presses run
  the \<^verbatim>\<open>keydown\<close> listener, and the three buttons call \<^verbatim>\<open>startGame\<close>, \<^verbatim>\<open>togglePause\<close> and
  \<^verbatim>\<open>restartGame\<close>. Each handler is modelled as a function from the state before to the
  state after. Three things come from outside the script and are parameters of the model:
  \<^item> \<open>cw\<close>, the width of the canvas element (\<^verbatim>\<open>canvas.width\<close>, an unsigned integer);
  \<^item> \<open>rnd\<close>, the results of the successive calls of \<^verbatim>\<open>Math.random()\<close>: \<open>rnd k\<close> is the
    result of call number \<open>k\<close>, a number in \<open>[0, 1)\<close>;
  \<^item> \<open>st\<close>, what \<^verbatim>\<open>localStorage.getItem('snakeHighScore')\<close> returns when the script is
    loaded: \<open>None\<close> for a missing key, \<open>Some v\<close> for a stored numeral \<open>v\<close>.
  Numbers are exact: coordinates, scores and intervals are integers, \<^verbatim>\<open>TILE_COUNT\<close> and the
  random numbers are rationals, and the rounding of a floating-point product is not
  modelled.
  Drawing (\<^verbatim>\<open>draw\<close>) and the texts of the page elements do not feed back into the
  variables and are left out; the visibility of the game-over banner is kept, because it
  is the only thing that tells a finished game from one that has not begun.
\<close>

subsection \<open>Data\<close>

type_synonym cell = "int \<times> int"

datatype failure = TypeError | NoReturn

datatype key = ArrowUp | ArrowDown | ArrowLeft | ArrowRight | Space | OtherKey

datatype event = TimerFire | KeyDown key | ClickStart | ClickPause | ClickRestart

datatype phase = Idle | Running | Paused | Ended

record game =
  snake :: "cell list"
  food :: "cell option"
  dx :: int
  dy :: int
  score :: int
  highScore :: int
  gameLoop :: "nat option"
  gameStarted :: bool
  gamePaused :: bool
  gameSpeed :: int
  gameOverShown :: bool
  timers :: "(nat \<times> int) list"
  nextTimer :: nat
  setItemLog :: "int list"
  rng :: nat

text \<open>
  \<open>food = None\<close> is the empty object \<^verbatim>\<open>{}\<close> of the declaration, and \<open>gameLoop = None\<close> is
  \<^verbatim>\<open>null\<close>. \<open>gameOverShown\<close> is \<^verbatim>\<open>gameOverElement.style.display == 'block'\<close>.
  \<open>timers\<close> lists the interval timers of the window that are armed, each with its
  handle and its period in milliseconds; \<open>nextTimer\<close> is the handle the next
  \<^verbatim>\<open>setInterval\<close> returns. \<open>setItemLog\<close> lists the values written by
  \<^verbatim>\<open>localStorage.setItem('snakeHighScore', _)\<close>, oldest first. \<open>rng\<close> counts the calls of
  \<^verbatim>\<open>Math.random()\<close> made so far.
\<close>

definition GRID_SIZE :: nat where
  "GRID_SIZE = 20"

definition TILE_COUNT :: "nat \<Rightarrow> rat" where
  "TILE_COUNT cw = of_nat cw / of_nat GRID_SIZE"

definition initial_snake :: "cell list" where
  "initial_snake = [(10, 10), (9, 10), (8, 10)]"

definition phase_of :: "game \<Rightarrow> phase" where
  "phase_of s =
     (if gameStarted s then (if gamePaused s then Paused else Running)
      else if gameOverShown s then Ended else Idle)"

subsection \<open>Timers\<close>

definition setInterval :: "int \<Rightarrow> game \<Rightarrow> game" where
  "setInterval ms s =
     s\<lparr>timers := timers s @ [(nextTimer s, ms)],
       gameLoop := Some (nextTimer s),
       nextTimer := nextTimer s + 1\<rparr>"

definition clearInterval :: "game \<Rightarrow> game" where
  "clearInterval s = s\<lparr>timers := filter (\<lambda>t. Some (fst t) \<noteq> gameLoop s) (timers s)\<rparr>"

subsection \<open>Food placement\<close>

text \<open>
  \<open>on_snake c sn\<close> is the loop \<^verbatim>\<open>for (let segment of snake)\<close> that both \<^verbatim>\<open>generateFood\<close>
  and \<^verbatim>\<open>update\<close> run, comparing the two coordinates of each segment with those of \<open>c\<close>.
  \<open>random_tile\<close> is \<^verbatim>\<open>Math.floor(Math.random() * TILE_COUNT)\<close> for call number \<open>k\<close> of
  \<^verbatim>\<open>Math.random()\<close>; the object literal of \<^verbatim>\<open>generateFood\<close> makes two such calls, first
  for \<^verbatim>\<open>x\<close>, then for \<^verbatim>\<open>y\<close>.

  \<^verbatim>\<open>generateFood\<close> calls itself when the drawn cell is on the snake, with nothing in the
  script that bounds the number of calls: it is a partial function, and \<open>None\<close> stands for
  a call that never returns. The depth of the call stack is not modelled: the script nests
  one call for each rejected draw, and an engine aborts the handler with a \<^verbatim>\<open>RangeError\<close>
  once that nesting exhausts its stack, where the function below goes on drawing. How
  likely a run of rejected draws is under a uniform random source is not modelled either;
  the facts proved about \<^verbatim>\<open>generateFood\<close> are about the placement it returns, for whatever
  values the random source gives.
\<close>

fun on_snake :: "cell \<Rightarrow> cell list \<Rightarrow> bool" where
  "on_snake c [] = False"
| "on_snake c (segment # rest) =
     (if fst segment = fst c \<and> snd segment = snd c then True else on_snake c rest)"

definition random_tile :: "nat \<Rightarrow> (nat \<Rightarrow> rat) \<Rightarrow> nat \<Rightarrow> int" where
  "random_tile cw rnd k = \<lfloor>rnd k * TILE_COUNT cw\<rfloor>"

definition drawn_cell :: "nat \<Rightarrow> (nat \<Rightarrow> rat) \<Rightarrow> nat \<Rightarrow> cell" where
  "drawn_cell cw rnd k = (random_tile cw rnd k, random_tile cw rnd (k + 1))"

partial_function (option) generateFood :: "nat \<Rightarrow> (nat \<Rightarrow> rat) \<Rightarrow> game \<Rightarrow> game option" where
  "generateFood cw rnd s =
     (let s1 = s\<lparr>food := Some (drawn_cell cw rnd (rng s)), rng := rng s + 2\<rparr> in
      if on_snake (drawn_cell cw rnd (rng s)) (snake s1) then generateFood cw rnd s1
      else Some s1)"

declare generateFood.simps [code]

definition returns :: "game option \<Rightarrow> failure + game" where
  "returns r = (case r of None \<Rightarrow> Inl NoReturn | Some s \<Rightarrow> Inr s)"

subsection \<open>The handlers\<close>

text \<open>
  A handler that calls \<^verbatim>\<open>generateFood\<close> returns \<open>Inl NoReturn\<close> when that call does not
  return. \<^verbatim>\<open>update\<close> reads \<^verbatim>\<open>snake[0].x\<close>, which throws a \<^verbatim>\<open>TypeError\<close> on an empty array.
  In \<^verbatim>\<open>update\<close>, \<open>eat\<close> is the block that adds 10 to the score and records a new high
  score, and \<open>speed_up\<close> is the block that shortens the interval and re-arms the timer;
  \<^verbatim>\<open>generateFood\<close> runs between the two.
\<close>

definition initGame :: "nat \<Rightarrow> (nat \<Rightarrow> rat) \<Rightarrow> game \<Rightarrow> failure + game" where
  "initGame cw rnd s =
     returns (generateFood cw rnd
       (s\<lparr>snake := initial_snake, dx := 1, dy := 0, score := 0, gameOverShown := False\<rparr>))"

definition endGame :: "game \<Rightarrow> game" where
  "endGame s = (clearInterval s)\<lparr>gameStarted := False, gameOverShown := True\<rparr>"

definition out_of_board :: "nat \<Rightarrow> cell \<Rightarrow> bool" where
  "out_of_board cw c \<longleftrightarrow>
     fst c < 0 \<or> TILE_COUNT cw \<le> of_int (fst c) \<or> snd c < 0 \<or> TILE_COUNT cw \<le> of_int (snd c)"

definition speed_up :: "game \<Rightarrow> game" where
  "speed_up s =
     (if gameSpeed s > 70
      then setInterval (gameSpeed s - 2) (clearInterval (s\<lparr>gameSpeed := gameSpeed s - 2\<rparr>))
      else s)"

definition eat :: "game \<Rightarrow> game" where
  "eat s =
     (let s1 = s\<lparr>score := score s + 10\<rparr> in
      if score s1 > highScore s1
      then s1\<lparr>highScore := score s1, setItemLog := setItemLog s1 @ [score s1]\<rparr>
      else s1)"

definition update :: "nat \<Rightarrow> (nat \<Rightarrow> rat) \<Rightarrow> game \<Rightarrow> failure + game" where
  "update cw rnd s =
     (if gamePaused s then Inr s
      else case snake s of
        [] \<Rightarrow> Inl TypeError
      | seg0 # _ \<Rightarrow>
          let head = (fst seg0 + dx s, snd seg0 + dy s) in
          if out_of_board cw head then Inr (endGame s)
          else if on_snake head (snake s) then Inr (endGame s)
          else
            let s1 = s\<lparr>snake := head # snake s\<rparr> in
            if Some head = food s1
            then (case generateFood cw rnd (eat s1) of
                    None \<Rightarrow> Inl NoReturn
                  | Some s2 \<Rightarrow> Inr (speed_up s2))
            else Inr (s1\<lparr>snake := butlast (snake s1)\<rparr>))"

definition startGame :: "nat \<Rightarrow> (nat \<Rightarrow> rat) \<Rightarrow> game \<Rightarrow> failure + game" where
  "startGame cw rnd s =
     (if \<not> gameStarted s
      then (case initGame cw rnd (s\<lparr>gameStarted := True, gamePaused := False\<rparr>) of
              Inl e \<Rightarrow> Inl e
            | Inr s1 \<Rightarrow> Inr (setInterval (gameSpeed s1) s1))
      else Inr s)"

definition togglePause :: "game \<Rightarrow> game" where
  "togglePause s = (if \<not> gameStarted s then s else s\<lparr>gamePaused := \<not> gamePaused s\<rparr>)"

definition restartGame :: "nat \<Rightarrow> (nat \<Rightarrow> rat) \<Rightarrow> game \<Rightarrow> failure + game" where
  "restartGame cw rnd s =
     initGame cw rnd
       ((clearInterval s)\<lparr>gameStarted := False, gamePaused := False, gameSpeed := 120\<rparr>)"

definition keydown :: "key \<Rightarrow> game \<Rightarrow> game" where
  "keydown k s =
     (if \<not> gameStarted s then s
      else case k of
        ArrowUp \<Rightarrow> (if dy s = 0 then s\<lparr>dx := 0, dy := - 1\<rparr> else s)
      | ArrowDown \<Rightarrow> (if dy s = 0 then s\<lparr>dx := 0, dy := 1\<rparr> else s)
      | ArrowLeft \<Rightarrow> (if dx s = 0 then s\<lparr>dx := - 1, dy := 0\<rparr> else s)
      | ArrowRight \<Rightarrow> (if dx s = 0 then s\<lparr>dx := 1, dy := 0\<rparr> else s)
      | Space \<Rightarrow> togglePause s
      | OtherKey \<Rightarrow> s)"

subsection \<open>Loading the script, and runs of events\<close>

definition globals :: "int option \<Rightarrow> game" where
  "globals st =
     \<lparr>snake = [], food = None, dx = 0, dy = 0, score = 0,
      highScore = (case st of None \<Rightarrow> 0 | Some v \<Rightarrow> v),
      gameLoop = None, gameStarted = False, gamePaused = False, gameSpeed = 120,
      gameOverShown = False, timers = [], nextTimer = 1, setItemLog = [], rng = 0\<rparr>"

definition load :: "nat \<Rightarrow> (nat \<Rightarrow> rat) \<Rightarrow> int option \<Rightarrow> failure + game" where
  "load cw rnd st = initGame cw rnd (globals st)"

text \<open>
  An interval timer fires only while it is armed; its callback is always
  \<^verbatim>\<open>gameUpdate\<close>, which calls \<^verbatim>\<open>update\<close>.
\<close>

definition handle :: "nat \<Rightarrow> (nat \<Rightarrow> rat) \<Rightarrow> event \<Rightarrow> game \<Rightarrow> failure + game" where
  "handle cw rnd e s =
     (case e of
        TimerFire \<Rightarrow> (if timers s = [] then Inr s else update cw rnd s)
      | KeyDown k \<Rightarrow> Inr (keydown k s)
      | ClickStart \<Rightarrow> startGame cw rnd s
      | ClickPause \<Rightarrow> Inr (togglePause s)
      | ClickRestart \<Rightarrow> restartGame cw rnd s)"

text \<open>
  \<open>execution cw rnd st ss\<close>: the states \<open>ss\<close> (latest first) are those the page went
  through since the script was loaded, one per handled event.
\<close>

inductive execution :: "nat \<Rightarrow> (nat \<Rightarrow> rat) \<Rightarrow> int option \<Rightarrow> game list \<Rightarrow> bool"
  for cw :: nat and rnd :: "nat \<Rightarrow> rat" and st :: "int option" where
  loaded: "load cw rnd st = Inr s \<Longrightarrow> execution cw rnd st [s]"
| handled: "execution cw rnd st (s # ss) \<Longrightarrow> handle cw rnd e s = Inr s'
     \<Longrightarrow> execution cw rnd st (s' # s # ss)"

definition reachable :: "nat \<Rightarrow> (nat \<Rightarrow> rat) \<Rightarrow> int option \<Rightarrow> game \<Rightarrow> bool" where
  "reachable cw rnd st s \<longleftrightarrow> (\<exists>ss. execution cw rnd st (s # ss))"

text \<open>
  What the environment promises: \<^verbatim>\<open>Math.random()\<close> returns a number that is at least 0 and
  less than 1. \<open>on_board\<close> is the square \<open>[0, TILE_COUNT) \<times> [0, TILE_COUNT)\<close>.
  \<open>draws_free cw rnd sn k\<close>: from call number \<open>k\<close> on, some pair of draws gives a cell that
  is not in \<open>sn\<close>.
\<close>

definition unit_random :: "(nat \<Rightarrow> rat) \<Rightarrow> bool" where
  "unit_random rnd \<longleftrightarrow> (\<forall>k. 0 \<le> rnd k \<and> rnd k < 1)"

definition on_board :: "nat \<Rightarrow> cell \<Rightarrow> bool" where
  "on_board cw c \<longleftrightarrow>
     0 \<le> fst c \<and> of_int (fst c) < TILE_COUNT cw \<and> 0 \<le> snd c \<and> of_int (snd c) < TILE_COUNT cw"

definition draws_free :: "nat \<Rightarrow> (nat \<Rightarrow> rat) \<Rightarrow> cell list \<Rightarrow> nat \<Rightarrow> bool" where
  "draws_free cw rnd sn k \<longleftrightarrow> (\<exists>n. drawn_cell cw rnd (k + 2 * n) \<notin> set sn)"

subsection \<open>Well-formed states and other vocabulary\<close>

text \<open>
  \<open>placed cw rnd s n\<close> is the state \<^verbatim>\<open>generateFood\<close> leaves when it started in \<open>s\<close> and its
  first \<open>n\<close> draws were rejected. \<open>next_head\<close> is the cell \<^verbatim>\<open>update\<close> computes first, the
  head moved by \<open>(dx, dy)\<close>. \<open>stored_high\<close> is \<^verbatim>\<open>getItem(...) || 0\<close>.
\<close>

definition placed :: "nat \<Rightarrow> (nat \<Rightarrow> rat) \<Rightarrow> game \<Rightarrow> nat \<Rightarrow> game" where
  "placed cw rnd s n = s\<lparr>food := Some (drawn_cell cw rnd (rng s + 2 * n)), rng := rng s + 2 * n + 2\<rparr>"

definition wf_snake :: "nat \<Rightarrow> game \<Rightarrow> bool" where
  "wf_snake cw s \<longleftrightarrow> list_all (on_board cw) (snake s) \<and> distinct (snake s) \<and> 3 \<le> length (snake s)"

definition wf_food :: "nat \<Rightarrow> game \<Rightarrow> bool" where
  "wf_food cw s \<longleftrightarrow> (\<exists>f. food s = Some f \<and> on_board cw f \<and> f \<notin> set (snake s))"

definition wf_timer :: "game \<Rightarrow> bool" where
  "wf_timer s \<longleftrightarrow>
     (if gameStarted s then \<exists>h. gameLoop s = Some h \<and> timers s = [(h, gameSpeed s)]
      else timers s = [] \<and> \<not> gamePaused s \<and> (\<not> gameOverShown s \<longrightarrow> gameSpeed s = 120))"

definition wf_dir :: "game \<Rightarrow> bool" where
  "wf_dir s \<longleftrightarrow> (dx s, dy s) \<in> {(1, 0), (- 1, 0), (0, 1), (0, - 1)}"

definition wf_game :: "nat \<Rightarrow> game \<Rightarrow> bool" where
  "wf_game cw s \<longleftrightarrow> wf_snake cw s \<and> wf_food cw s \<and> wf_timer s \<and> wf_dir s"

definition next_head :: "game \<Rightarrow> cell" where
  "next_head s = (fst (hd (snake s)) + dx s, snd (hd (snake s)) + dy s)"

definition wf_ended :: "nat \<Rightarrow> game \<Rightarrow> bool" where
  "wf_ended cw s \<longleftrightarrow>
     (\<not> gameStarted s \<and> gameOverShown s \<longrightarrow>
        \<not> on_board cw (next_head s) \<or> next_head s \<in> set (snake s))"

definition stored_high :: "int option \<Rightarrow> int" where
  "stored_high st = (case st of None \<Rightarrow> 0 | Some v \<Rightarrow> v)"

definition wf_score :: "game \<Rightarrow> bool" where
  "wf_score s \<longleftrightarrow> 0 \<le> score s \<and> score s \<le> highScore s"

definition score_step :: "game \<Rightarrow> game \<Rightarrow> bool" where
  "score_step s s' \<longleftrightarrow>
     highScore s' = max (highScore s) (score s') \<and>
     setItemLog s' = (if highScore s < score s' then setItemLog s @ [score s'] else setItemLog s)"

text \<open>The direction an arrow key asks for, as the listener assigns it to \<open>(dx, dy)\<close>.\<close>

definition arrow_delta :: "key \<Rightarrow> cell option" where
  "arrow_delta k =
     (case k of ArrowUp \<Rightarrow> Some (0, - 1) | ArrowDown \<Rightarrow> Some (0, 1)
      | ArrowLeft \<Rightarrow> Some (- 1, 0) | ArrowRight \<Rightarrow> Some (1, 0)
      | Space \<Rightarrow> None | OtherKey \<Rightarrow> None)"

subsection \<open>A sample game\<close>

text \<open>
  A canvas 400 pixels wide (20 tiles a side), an empty store, and a random source whose
  draws give the cells (15, 15), (11, 10), (15, 15), (15, 15), ... The page is loaded, the
  game started, the food at (11, 10) eaten on the first tick, and the snake runs on to the
  right until it leaves the board (\<open>run\<close> handles a list of events in turn).
\<close>

definition demo_random :: "nat \<Rightarrow> rat" where
  "demo_random k = (if k = 2 then 11 / 20 else if k = 3 then 1 / 2 else 3 / 4)"

fun run :: "nat \<Rightarrow> (nat \<Rightarrow> rat) \<Rightarrow> event list \<Rightarrow> game \<Rightarrow> failure + game" where
  "run cw rnd [] s = Inr s"
| "run cw rnd (e # es) s = (case handle cw rnd e s of Inl f \<Rightarrow> Inl f | Inr s' \<Rightarrow> run cw rnd es s')"

definition demo_loaded :: game where
  "demo_loaded =
     \<lparr>snake = [(10, 10), (9, 10), (8, 10)], food = Some (15, 15), dx = 1, dy = 0, score = 0,
      highScore = 0, gameLoop = None, gameStarted = False, gamePaused = False, gameSpeed = 120,
      gameOverShown = False, timers = [], nextTimer = 1, setItemLog = [], rng = 2\<rparr>"

definition demo_started :: game where
  "demo_started =
     \<lparr>snake = [(10, 10), (9, 10), (8, 10)], food = Some (11, 10), dx = 1, dy = 0, score = 0,
      highScore = 0, gameLoop = Some 1, gameStarted = True, gamePaused = False, gameSpeed = 120,
      gameOverShown = False, timers = [(1, 120)], nextTimer = 2, setItemLog = [], rng = 4\<rparr>"

definition demo_fed :: game where
  "demo_fed =
     \<lparr>snake = [(11, 10), (10, 10), (9, 10), (8, 10)], food = Some (15, 15), dx = 1, dy = 0,
      score = 10, highScore = 10, gameLoop = Some 2, gameStarted = True, gamePaused = False,
      gameSpeed = 118, gameOverShown = False, timers = [(2, 118)], nextTimer = 3,
      setItemLog = [10], rng = 6\<rparr>"

definition demo_ended :: game where
  "demo_ended =
     \<lparr>snake = [(19, 10), (18, 10), (17, 10), (16, 10)], food = Some (15, 15), dx = 1, dy = 0,
      score = 10, highScore = 10, gameLoop = Some 2, gameStarted = False, gamePaused = False,
      gameSpeed = 118, gameOverShown = True, timers = [], nextTimer = 3, setItemLog = [10],
      rng = 6\<rparr>"

definition demo_brink :: game where
  "demo_brink =
     \<lparr>snake = [(19, 10), (18, 10), (17, 10), (16, 10)], food = Some (15, 15), dx = 1, dy = 0,
      score = 10, highScore = 10, gameLoop = Some 2, gameStarted = True, gamePaused = False,
      gameSpeed = 118, gameOverShown = False, timers = [(2, 118)], nextTimer = 3,
      setItemLog = [10], rng = 6\<rparr>"

definition demo_restarted :: game where
  "demo_restarted =
     \<lparr>snake = [(10, 10), (9, 10), (8, 10)], food = Some (15, 15), dx = 1, dy = 0, score = 0,
      highScore = 10, gameLoop = Some 2, gameStarted = False, gamePaused = False,
      gameSpeed = 120, gameOverShown = False, timers = [], nextTimer = 3, setItemLog = [10],
      rng = 8\<rparr>"

definition demo_second :: game where
  "demo_second =
     \<lparr>snake = [(10, 10), (9, 10), (8, 10)], food = Some (15, 15), dx = 1, dy = 0, score = 0,
      highScore = 10, gameLoop = Some 3, gameStarted = True, gamePaused = False,
      gameSpeed = 118, gameOverShown = False, timers = [(3, 118)], nextTimer = 4,
      setItemLog = [10], rng = 8\<rparr>"

definition demo_paused :: game where
  "demo_paused = demo_started\<lparr>gamePaused := True\<rparr>"

section \<open>Facts about food placement and the handlers\<close>

lemma on_snake_iff: "on_snake c sn \<longleftrightarrow> c \<in> set sn"
  by (induction sn) (auto simp: prod_eq_iff)

lemma generateFood_free:
  "drawn_cell cw rnd (rng s) \<notin> set (snake s) \<Longrightarrow> generateFood cw rnd s = Some (placed cw rnd s 0)"
  by (subst generateFood.simps) (simp add: Let_def on_snake_iff placed_def)

lemma generateFood_taken:
  "drawn_cell cw rnd (rng s) \<in> set (snake s) \<Longrightarrow>
     generateFood cw rnd s = generateFood cw rnd (placed cw rnd s 0)"
  by (subst generateFood.simps) (simp add: Let_def on_snake_iff placed_def)

lemma placed_placed: "placed cw rnd (placed cw rnd s 0) n = placed cw rnd s (Suc n)"
  by (simp add: placed_def)

lemma generateFood_first_free:
  "drawn_cell cw rnd (rng s + 2 * n) \<notin> set (snake s) \<Longrightarrow>
   (\<forall>m<n. drawn_cell cw rnd (rng s + 2 * m) \<in> set (snake s)) \<Longrightarrow>
   generateFood cw rnd s = Some (placed cw rnd s n)"
proof (induction n arbitrary: s)
  case 0
  then show ?case by (simp add: generateFood_free)
next
  case (Suc n)
  have taken: "drawn_cell cw rnd (rng s) \<in> set (snake s)"
    using Suc.prems(2) [rule_format, of 0] by simp
  have "generateFood cw rnd (placed cw rnd s 0) = Some (placed cw rnd (placed cw rnd s 0) n)"
  proof (rule Suc.IH)
    show "drawn_cell cw rnd (rng (placed cw rnd s 0) + 2 * n) \<notin> set (snake (placed cw rnd s 0))"
      using Suc.prems(1) by (simp add: placed_def)
    show "\<forall>m<n. drawn_cell cw rnd (rng (placed cw rnd s 0) + 2 * m) \<in> set (snake (placed cw rnd s 0))"
      using Suc.prems(2) by (auto simp: placed_def dest: spec [of _ "Suc _"])
  qed
  with taken show ?case by (simp add: generateFood_taken placed_placed)
qed

lemma generateFood_Some_D:
  assumes "generateFood cw rnd s = Some s'"
  shows "\<exists>n. s' = placed cw rnd s n \<and> drawn_cell cw rnd (rng s + 2 * n) \<notin> set (snake s)
      \<and> (\<forall>m<n. drawn_cell cw rnd (rng s + 2 * m) \<in> set (snake s))"
proof (rule generateFood.raw_induct [OF _ assms], goal_cases)
  case (1 gf cw rnd s s')
  show ?case
  proof (cases "drawn_cell cw rnd (rng s) \<in> set (snake s)")
    case False
    with 1(2) have "s' = placed cw rnd s 0"
      by (simp add: Let_def on_snake_iff placed_def)
    with False show ?thesis by (intro exI [of _ 0]) simp
  next
    case True
    with 1(2) have "gf cw rnd (placed cw rnd s 0) = Some s'"
      by (simp add: Let_def on_snake_iff placed_def)
    from 1(1) [OF this] obtain n where n: "s' = placed cw rnd (placed cw rnd s 0) n"
      "drawn_cell cw rnd (rng (placed cw rnd s 0) + 2 * n) \<notin> set (snake (placed cw rnd s 0))"
      "\<forall>m<n. drawn_cell cw rnd (rng (placed cw rnd s 0) + 2 * m) \<in> set (snake (placed cw rnd s 0))"
      by blast
    have "\<forall>m<Suc n. drawn_cell cw rnd (rng s + 2 * m) \<in> set (snake s)"
    proof (intro allI impI)
      fix m assume "m < Suc n"
      show "drawn_cell cw rnd (rng s + 2 * m) \<in> set (snake s)"
      proof (cases m)
        case 0
        with True show ?thesis by simp
      next
        case (Suc k)
        with \<open>m < Suc n\<close> n(3) show ?thesis by (simp add: placed_def)
      qed
    qed
    with n(1,2) show ?thesis
      by (intro exI [of _ "Suc n"]) (simp add: placed_placed, simp add: placed_def)
  qed
qed

lemma generateFood_returns_iff:
  "(\<exists>s'. generateFood cw rnd s = Some s') \<longleftrightarrow> draws_free cw rnd (snake s) (rng s)"
proof
  assume "\<exists>s'. generateFood cw rnd s = Some s'"
  then show "draws_free cw rnd (snake s) (rng s)"
    unfolding draws_free_def by (blast dest: generateFood_Some_D)
next
  assume "draws_free cw rnd (snake s) (rng s)"
  then have ex: "\<exists>n. drawn_cell cw rnd (rng s + 2 * n) \<notin> set (snake s)"
    by (simp add: draws_free_def)
  define n where "n = (LEAST n. drawn_cell cw rnd (rng s + 2 * n) \<notin> set (snake s))"
  have "drawn_cell cw rnd (rng s + 2 * n) \<notin> set (snake s)"
    unfolding n_def using ex by (rule LeastI_ex)
  moreover have "\<forall>m<n. drawn_cell cw rnd (rng s + 2 * m) \<in> set (snake s)"
    unfolding n_def using not_less_Least by blast
  ultimately show "\<exists>s'. generateFood cw rnd s = Some s'"
    by (blast dest: generateFood_first_free)
qed

lemma random_tile_range:
  assumes "0 < cw" "unit_random rnd"
  shows "0 \<le> random_tile cw rnd k" "of_int (random_tile cw rnd k) < TILE_COUNT cw"
proof -
  have T: "0 < TILE_COUNT cw" using assms(1) by (simp add: TILE_COUNT_def GRID_SIZE_def)
  have r: "0 \<le> rnd k" "rnd k < 1" using assms(2) by (simp_all add: unit_random_def)
  from r(1) T show "0 \<le> random_tile cw rnd k" by (simp add: random_tile_def)
  have "of_int (random_tile cw rnd k) \<le> rnd k * TILE_COUNT cw"
    by (simp add: random_tile_def)
  also have "\<dots> < 1 * TILE_COUNT cw" using r(2) T by (intro mult_strict_right_mono) simp_all
  finally show "of_int (random_tile cw rnd k) < TILE_COUNT cw" by simp
qed

lemma drawn_cell_on_board:
  "0 < cw \<Longrightarrow> unit_random rnd \<Longrightarrow> on_board cw (drawn_cell cw rnd k)"
  by (simp add: on_board_def drawn_cell_def random_tile_range)

lemma out_of_board_iff: "out_of_board cw c \<longleftrightarrow> \<not> on_board cw c"
  by (auto simp: out_of_board_def on_board_def)

lemma placed_fields [simp]:
  "snake (placed cw rnd s n) = snake s" "dx (placed cw rnd s n) = dx s"
  "dy (placed cw rnd s n) = dy s" "score (placed cw rnd s n) = score s"
  "highScore (placed cw rnd s n) = highScore s" "gameLoop (placed cw rnd s n) = gameLoop s"
  "gameStarted (placed cw rnd s n) = gameStarted s" "gamePaused (placed cw rnd s n) = gamePaused s"
  "gameSpeed (placed cw rnd s n) = gameSpeed s" "gameOverShown (placed cw rnd s n) = gameOverShown s"
  "timers (placed cw rnd s n) = timers s" "nextTimer (placed cw rnd s n) = nextTimer s"
  "setItemLog (placed cw rnd s n) = setItemLog s"
  "food (placed cw rnd s n) = Some (drawn_cell cw rnd (rng s + 2 * n))"
  "rng (placed cw rnd s n) = rng s + 2 * n + 2"
  by (simp_all add: placed_def)

lemma initial_snake_ok:
  "200 < cw \<Longrightarrow> list_all (on_board cw) initial_snake" "distinct initial_snake" "length initial_snake = 3"
  by (simp_all add: initial_snake_def on_board_def TILE_COUNT_def GRID_SIZE_def)

lemma initGame_wf:
  assumes "initGame cw rnd s = Inr s'" "200 < cw" "unit_random rnd"
  shows "wf_snake cw s'" "wf_food cw s'" "wf_dir s'" "snake s' = initial_snake"
    "timers s' = timers s" "gameStarted s' = gameStarted s" "gamePaused s' = gamePaused s"
    "gameSpeed s' = gameSpeed s" "gameLoop s' = gameLoop s" "score s' = 0"
    "highScore s' = highScore s" "setItemLog s' = setItemLog s" "dx s' = 1" "dy s' = 0"
    "\<not> gameOverShown s'" "nextTimer s' = nextTimer s"
proof -
  let ?s0 = "s\<lparr>snake := initial_snake, dx := 1, dy := 0, score := 0, gameOverShown := False\<rparr>"
  from assms(1) have "generateFood cw rnd ?s0 = Some s'"
    by (simp add: initGame_def returns_def split: option.splits)
  from generateFood_Some_D [OF this] obtain n where
    n: "s' = placed cw rnd ?s0 n" "drawn_cell cw rnd (rng ?s0 + 2 * n) \<notin> set (snake ?s0)"
    by blast
  have ob: "on_board cw (drawn_cell cw rnd (rng ?s0 + 2 * n))"
    using assms(2,3) by (intro drawn_cell_on_board) simp_all
  show "wf_snake cw s'" using assms(2) by (simp add: n(1) wf_snake_def initial_snake_ok)
  show "wf_food cw s'" using n(2) ob by (simp add: n(1) wf_food_def)
  show "wf_dir s'" by (simp add: n(1) wf_dir_def)
  show "snake s' = initial_snake" "timers s' = timers s" "gameStarted s' = gameStarted s"
    "gamePaused s' = gamePaused s" "gameSpeed s' = gameSpeed s" "gameLoop s' = gameLoop s"
    "score s' = 0" "highScore s' = highScore s" "setItemLog s' = setItemLog s" "dx s' = 1" "dy s' = 0"
    "\<not> gameOverShown s'" "nextTimer s' = nextTimer s"
    by (simp_all add: n(1))
qed

lemma load_wf:
  assumes "load cw rnd st = Inr s" "200 < cw" "unit_random rnd"
  shows "wf_game cw s"
  using initGame_wf [OF assms(1) [unfolded load_def] assms(2,3)]
  by (simp add: wf_game_def wf_timer_def globals_def)

lemma startGame_wf:
  assumes "startGame cw rnd s = Inr s'" "200 < cw" "unit_random rnd" "wf_game cw s"
  shows "wf_game cw s'"
proof (cases "gameStarted s")
  case True
  with assms(1,4) show ?thesis by (simp add: startGame_def)
next
  case False
  with assms(1) obtain s1 where
    s1: "initGame cw rnd (s\<lparr>gameStarted := True, gamePaused := False\<rparr>) = Inr s1"
    and s': "s' = setInterval (gameSpeed s1) s1"
    by (auto simp: startGame_def split: sum.splits)
  note i = initGame_wf [OF s1 assms(2,3)]
  from assms(4) False have "timers s = []" by (simp add: wf_game_def wf_timer_def)
  with i show ?thesis
    by (simp add: s' wf_game_def wf_snake_def wf_food_def wf_dir_def wf_timer_def setInterval_def)
qed

lemma restartGame_wf:
  assumes "restartGame cw rnd s = Inr s'" "200 < cw" "unit_random rnd" "wf_game cw s"
  shows "wf_game cw s'"
proof -
  note i = initGame_wf [OF assms(1) [unfolded restartGame_def] assms(2,3)]
  from assms(4) have "timers (clearInterval s) = []"
    by (auto simp: wf_game_def wf_timer_def clearInterval_def split: if_splits)
  with i show ?thesis
    by (simp add: wf_game_def wf_timer_def)
qed

lemma togglePause_wf: "wf_game cw s \<Longrightarrow> wf_game cw (togglePause s)"
  by (simp add: togglePause_def wf_game_def wf_snake_def wf_food_def wf_dir_def wf_timer_def)

lemma keydown_wf: "wf_game cw s \<Longrightarrow> wf_game cw (keydown k s)"
  by (cases k)
    (simp_all add: keydown_def togglePause_wf,
     simp_all add: wf_game_def wf_snake_def wf_food_def wf_dir_def wf_timer_def)

lemma endGame_wf: "wf_game cw s \<Longrightarrow> \<not> gamePaused s \<Longrightarrow> wf_game cw (endGame s)"
  by (auto simp: endGame_def clearInterval_def wf_game_def wf_snake_def wf_food_def wf_dir_def
      wf_timer_def split: if_splits)

lemma eat_fields [simp]:
  "snake (eat s) = snake s" "food (eat s) = food s" "dx (eat s) = dx s" "dy (eat s) = dy s"
  "score (eat s) = score s + 10" "gameLoop (eat s) = gameLoop s"
  "gameStarted (eat s) = gameStarted s" "gamePaused (eat s) = gamePaused s"
  "gameSpeed (eat s) = gameSpeed s" "gameOverShown (eat s) = gameOverShown s"
  "timers (eat s) = timers s" "nextTimer (eat s) = nextTimer s" "rng (eat s) = rng s"
  "highScore (eat s) = max (highScore s) (score s + 10)"
  "setItemLog (eat s) =
     (if highScore s < score s + 10 then setItemLog s @ [score s + 10] else setItemLog s)"
  by (simp_all add: eat_def Let_def)

lemma speed_up_fields [simp]:
  "snake (speed_up s) = snake s" "food (speed_up s) = food s" "dx (speed_up s) = dx s"
  "dy (speed_up s) = dy s" "score (speed_up s) = score s" "highScore (speed_up s) = highScore s"
  "gameStarted (speed_up s) = gameStarted s" "gamePaused (speed_up s) = gamePaused s"
  "gameOverShown (speed_up s) = gameOverShown s" "setItemLog (speed_up s) = setItemLog s"
  "rng (speed_up s) = rng s"
  "gameSpeed (speed_up s) = (if 70 < gameSpeed s then gameSpeed s - 2 else gameSpeed s)"
  by (simp_all add: speed_up_def setInterval_def clearInterval_def)

lemma speed_up_timer: "wf_timer s \<Longrightarrow> gameStarted s \<Longrightarrow> wf_timer (speed_up s)"
  by (auto simp: wf_timer_def speed_up_def setInterval_def clearInterval_def)

lemma update_collision:
  assumes "\<not> gamePaused s" "snake s \<noteq> []"
    "\<not> on_board cw (next_head s) \<or> next_head s \<in> set (snake s)"
  shows "update cw rnd s = Inr (endGame s)"
  using assms
  by (cases "snake s")
    (auto simp: update_def Let_def next_head_def out_of_board_iff on_snake_iff)

lemma update_move:
  assumes "\<not> gamePaused s" "snake s \<noteq> []"
    "on_board cw (next_head s)" "next_head s \<notin> set (snake s)" "food s \<noteq> Some (next_head s)"
  shows "update cw rnd s = Inr (s\<lparr>snake := next_head s # butlast (snake s)\<rparr>)"
  using assms
  by (cases "snake s")
    (auto simp: update_def Let_def next_head_def out_of_board_iff on_snake_iff)

lemma update_eat:
  assumes "\<not> gamePaused s" "snake s \<noteq> []"
    "on_board cw (next_head s)" "next_head s \<notin> set (snake s)" "food s = Some (next_head s)"
  shows "update cw rnd s =
    (case generateFood cw rnd (eat (s\<lparr>snake := next_head s # snake s\<rparr>)) of
       None \<Rightarrow> Inl NoReturn | Some s2 \<Rightarrow> Inr (speed_up s2))"
  using assms
  by (cases "snake s")
    (auto simp: update_def Let_def next_head_def out_of_board_iff on_snake_iff)

section \<open>Invariants of the reachable states\<close>

lemma update_wf:
  assumes "update cw rnd s = Inr s'" "0 < cw" "unit_random rnd" "wf_game cw s" "gameStarted s"
  shows "wf_game cw s'"
proof (cases "gamePaused s")
  case True
  with assms(1,4) show ?thesis by (simp add: update_def)
next
  case np: False
  from assms(4) have ne: "snake s \<noteq> []" by (auto simp: wf_game_def wf_snake_def)
  from assms(4) obtain f where f: "food s = Some f" "on_board cw f" "f \<notin> set (snake s)"
    by (auto simp: wf_game_def wf_food_def)
  show ?thesis
  proof (cases "on_board cw (next_head s) \<and> next_head s \<notin> set (snake s)")
    case False
    then have "update cw rnd s = Inr (endGame s)"
      using np ne by (intro update_collision) auto
    with assms(1,4) np show ?thesis by (auto intro: endGame_wf)
  next
    case ok: True
    show ?thesis
    proof (cases "food s = Some (next_head s)")
      case False
      with np ne ok have "update cw rnd s = Inr (s\<lparr>snake := next_head s # butlast (snake s)\<rparr>)"
        by (intro update_move) auto
      with assms(1) have s': "s' = s\<lparr>snake := next_head s # butlast (snake s)\<rparr>" by simp
      have sub: "set (butlast (snake s)) \<subseteq> set (snake s)"
        by (auto dest: in_set_butlastD)
      have "wf_snake cw s'"
        using assms(4) ok sub ne
        by (auto simp: s' wf_game_def wf_snake_def list_all_iff distinct_butlast)
      moreover have "wf_food cw s'"
        using f False sub by (auto simp: s' wf_food_def)
      moreover have "wf_timer s'" "wf_dir s'"
        using assms(4) by (simp_all add: s' wf_game_def wf_timer_def wf_dir_def)
      ultimately show ?thesis by (simp add: wf_game_def)
    next
      case True
      let ?s1 = "eat (s\<lparr>snake := next_head s # snake s\<rparr>)"
      from update_eat [OF np ne _ _ True, of cw rnd] ok assms(1)
      obtain s2 where s2: "generateFood cw rnd ?s1 = Some s2" and s': "s' = speed_up s2"
        by (auto split: option.splits)
      from generateFood_Some_D [OF s2] obtain n where
        n: "s2 = placed cw rnd ?s1 n" "drawn_cell cw rnd (rng ?s1 + 2 * n) \<notin> set (snake ?s1)"
        by blast
      have "wf_snake cw s'"
        using assms(4) ok by (auto simp: s' n(1) wf_game_def wf_snake_def)
      moreover have "wf_food cw s'"
        using n(2) drawn_cell_on_board [OF assms(2,3)] by (simp add: s' n(1) wf_food_def)
      moreover have "wf_timer s2"
        using assms(4) by (simp add: n(1) wf_game_def wf_timer_def)
      then have "wf_timer s'" unfolding s' using assms(5) by (intro speed_up_timer) (simp_all add: n(1))
      moreover have "wf_dir s'"
        using assms(4) by (simp add: s' n(1) wf_game_def wf_dir_def)
      ultimately show ?thesis by (simp add: wf_game_def)
    qed
  qed
qed

lemma handle_wf:
  assumes "handle cw rnd e s = Inr s'" "200 < cw" "unit_random rnd" "wf_game cw s"
  shows "wf_game cw s'"
proof (cases e)
  case TimerFire
  show ?thesis
  proof (cases "timers s = []")
    case True
    with assms(1,4) TimerFire show ?thesis by (simp add: handle_def)
  next
    case False
    with assms(4) have "gameStarted s" by (auto simp: wf_game_def wf_timer_def split: if_splits)
    moreover from False assms(1) TimerFire have "update cw rnd s = Inr s'" by (simp add: handle_def)
    ultimately show ?thesis using assms(2,3,4) by (intro update_wf [of cw rnd s s']) simp_all
  qed
next
  case (KeyDown k)
  with assms(1,4) show ?thesis by (auto simp: handle_def intro: keydown_wf)
next
  case ClickStart
  with assms show ?thesis by (auto simp: handle_def intro: startGame_wf)
next
  case ClickPause
  with assms(1,4) show ?thesis by (auto simp: handle_def intro: togglePause_wf)
next
  case ClickRestart
  with assms show ?thesis by (auto simp: handle_def intro: restartGame_wf)
qed

lemma execution_wf:
  assumes "execution cw rnd st ss" "200 < cw" "unit_random rnd"
  shows "list_all (wf_game cw) ss"
  using assms
proof (induction rule: execution.induct)
  case (loaded s)
  then show ?case by (simp add: load_wf)
next
  case (handled s ss e s')
  then show ?case by (simp add: handle_wf)
qed

lemma reachable_wf:
  "reachable cw rnd st s \<Longrightarrow> 200 < cw \<Longrightarrow> unit_random rnd \<Longrightarrow> wf_game cw s"
  by (auto simp: reachable_def dest: execution_wf)

section \<open>Scores\<close>

lemma initGame_score:
  assumes "initGame cw rnd s = Inr s'"
  shows "score s' = 0" "highScore s' = highScore s" "setItemLog s' = setItemLog s"
proof -
  let ?s0 = "s\<lparr>snake := initial_snake, dx := 1, dy := 0, score := 0, gameOverShown := False\<rparr>"
  from assms have "generateFood cw rnd ?s0 = Some s'"
    by (simp add: initGame_def returns_def split: option.splits)
  from generateFood_Some_D [OF this] obtain n where "s' = placed cw rnd ?s0 n" by blast
  then show "score s' = 0" "highScore s' = highScore s" "setItemLog s' = setItemLog s"
    by simp_all
qed

lemma update_score:
  assumes "update cw rnd s = Inr s'"
  shows "(score s' = score s \<and> highScore s' = highScore s \<and> setItemLog s' = setItemLog s) \<or>
     (score s' = score s + 10 \<and> highScore s' = max (highScore s) (score s + 10) \<and>
      setItemLog s' =
        (if highScore s < score s + 10 then setItemLog s @ [score s + 10] else setItemLog s))"
proof (cases "gamePaused s")
  case True
  with assms show ?thesis by (simp add: update_def)
next
  case np: False
  have ne: "snake s \<noteq> []"
  proof
    assume "snake s = []"
    with np assms show False by (simp add: update_def)
  qed
  show ?thesis
  proof (cases "on_board cw (next_head s) \<and> next_head s \<notin> set (snake s)")
    case False
    then have "update cw rnd s = Inr (endGame s)"
      using np ne by (intro update_collision) auto
    with assms show ?thesis by (auto simp: endGame_def clearInterval_def)
  next
    case ok: True
    show ?thesis
    proof (cases "food s = Some (next_head s)")
      case False
      with np ne ok have "update cw rnd s = Inr (s\<lparr>snake := next_head s # butlast (snake s)\<rparr>)"
        by (intro update_move) auto
      with assms show ?thesis by auto
    next
      case True
      let ?s1 = "eat (s\<lparr>snake := next_head s # snake s\<rparr>)"
      from update_eat [OF np ne _ _ True, of cw rnd] ok assms
      obtain s2 where s2: "generateFood cw rnd ?s1 = Some s2" and s': "s' = speed_up s2"
        by (auto split: option.splits)
      from generateFood_Some_D [OF s2] obtain n where "s2 = placed cw rnd ?s1 n" by blast
      with s' show ?thesis by simp
    qed
  qed
qed

lemma togglePause_score [simp]:
  "score (togglePause s) = score s" "highScore (togglePause s) = highScore s"
  "setItemLog (togglePause s) = setItemLog s"
  by (simp_all add: togglePause_def)

lemma keydown_score [simp]:
  "score (keydown k s) = score s" "highScore (keydown k s) = highScore s"
  "setItemLog (keydown k s) = setItemLog s"
  by (cases k; simp add: keydown_def togglePause_def)+

lemma handle_score:
  assumes "handle cw rnd e s = Inr s'" "wf_score s"
  shows "wf_score s' \<and> score_step s s'"
proof (cases e)
  case TimerFire
  show ?thesis
  proof (cases "timers s = []")
    case True
    with assms TimerFire show ?thesis by (auto simp: handle_def wf_score_def score_step_def)
  next
    case False
    with assms(1) TimerFire have "update cw rnd s = Inr s'" by (simp add: handle_def)
    from update_score [OF this] assms(2) show ?thesis
      by (auto simp: wf_score_def score_step_def)
  qed
next
  case (KeyDown k)
  with assms show ?thesis
    by (auto simp: handle_def wf_score_def score_step_def)
next
  case ClickStart
  show ?thesis
  proof (cases "gameStarted s")
    case True
    with assms ClickStart show ?thesis
      by (auto simp: handle_def startGame_def wf_score_def score_step_def)
  next
    case False
    with assms(1) ClickStart obtain s1 where
      s1: "initGame cw rnd (s\<lparr>gameStarted := True, gamePaused := False\<rparr>) = Inr s1"
      and s': "s' = setInterval (gameSpeed s1) s1"
      by (auto simp: handle_def startGame_def split: sum.splits)
    from initGame_score [OF s1] assms(2) show ?thesis
      by (auto simp: s' setInterval_def wf_score_def score_step_def)
  qed
next
  case ClickPause
  with assms show ?thesis
    by (auto simp: handle_def wf_score_def score_step_def)
next
  case ClickRestart
  with assms(1) have "initGame cw rnd
       ((clearInterval s)\<lparr>gameStarted := False, gamePaused := False, gameSpeed := 120\<rparr>) = Inr s'"
    by (simp add: handle_def restartGame_def)
  from initGame_score [OF this] assms(2) show ?thesis
    by (auto simp: clearInterval_def wf_score_def score_step_def)
qed

lemma load_score:
  assumes "load cw rnd st = Inr s"
  shows "score s = 0" "highScore s = stored_high st" "setItemLog s = []"
  using initGame_score [OF assms [unfolded load_def]]
  by (simp_all add: globals_def stored_high_def)

lemma execution_score:
  assumes "execution cw rnd st ss" "0 \<le> stored_high st"
  shows "wf_score (hd ss) \<and> highScore (hd ss) = Max (set (stored_high st # map score ss))
     \<and> sorted (rev (map highScore ss))"
  using assms
proof (induction rule: execution.induct)
  case (loaded s)
  with load_score [OF loaded.hyps] show ?case by (simp add: wf_score_def)
next
  case (handled s ss e s')
  from handled.IH [OF handled.prems]
  have IH: "wf_score s" "highScore s = Max (set (stored_high st # map score (s # ss)))"
    "sorted (rev (map highScore (s # ss)))"
    unfolding list.sel by blast+
  from handle_score [OF handled.hyps(2) IH(1)] have
    st: "wf_score s'" "highScore s' = max (highScore s) (score s')"
    by (simp_all add: score_step_def)
  have "Max (set (stored_high st # map score (s' # s # ss)))
      = max (score s') (Max (set (stored_high st # map score (s # ss))))"
    by (simp add: insert_commute)
  with IH(2) st(2) have "highScore s' = Max (set (stored_high st # map score (s' # s # ss)))"
    by (simp add: max.commute)
  moreover have "sorted (rev (map highScore (s' # s # ss)))"
    using IH(3) st(2) by (auto simp: sorted_append)
  ultimately show ?case using st(1) by simp
qed

section \<open>The sample game, step by step\<close>

lemma demo_random_unit: "unit_random demo_random"
  by (simp add: unit_random_def demo_random_def)

lemma demo_cells:
  "drawn_cell 400 demo_random 0 = (15, 15)" "drawn_cell 400 demo_random 2 = (11, 10)"
  "drawn_cell 400 demo_random 4 = (15, 15)" "drawn_cell 400 demo_random 6 = (15, 15)"
  by (simp_all add: drawn_cell_def random_tile_def TILE_COUNT_def GRID_SIZE_def demo_random_def)

lemma demo_load: "load 400 demo_random None = Inr demo_loaded"
  by (simp add: load_def initGame_def globals_def returns_def generateFood_free placed_def
      demo_cells initial_snake_def demo_loaded_def)

lemma demo_start: "startGame 400 demo_random demo_loaded = Inr demo_started"
  by (simp add: startGame_def initGame_def returns_def generateFood_free placed_def
      demo_cells initial_snake_def demo_loaded_def demo_started_def setInterval_def)

lemma demo_feed: "update 400 demo_random demo_started = Inr demo_fed"
  by (simp add: update_def Let_def out_of_board_def TILE_COUNT_def GRID_SIZE_def eat_def
      generateFood_free placed_def demo_cells speed_up_def setInterval_def clearInterval_def
      demo_started_def demo_fed_def)

lemma demo_crash:
  "run 400 demo_random
     [TimerFire, TimerFire, TimerFire, TimerFire, TimerFire, TimerFire, TimerFire, TimerFire,
      TimerFire] demo_fed = Inr demo_ended"
  by (simp add: handle_def update_def Let_def out_of_board_def TILE_COUNT_def GRID_SIZE_def
      endGame_def clearInterval_def demo_fed_def demo_ended_def)

lemma TILE_COUNT_room: "10 < TILE_COUNT cw \<longleftrightarrow> 200 < cw"
proof -
  have "10 < TILE_COUNT cw \<longleftrightarrow> (200::rat) < of_nat cw"
    by (simp add: TILE_COUNT_def GRID_SIZE_def field_simps)
  also have "\<dots> \<longleftrightarrow> (of_nat 200 :: rat) < of_nat cw" by simp
  also have "\<dots> \<longleftrightarrow> 200 < cw" by (simp only: of_nat_less_iff)
  finally show ?thesis .
qed

lemma reachable_load: "load cw rnd st = Inr s \<Longrightarrow> reachable cw rnd st s"
  unfolding reachable_def by (blast intro: execution.loaded)

lemma reachable_handle:
  "reachable cw rnd st s \<Longrightarrow> handle cw rnd e s = Inr s' \<Longrightarrow> reachable cw rnd st s'"
  unfolding reachable_def by (blast intro: execution.handled)

lemma reachable_run:
  "reachable cw rnd st s \<Longrightarrow> run cw rnd es s = Inr s' \<Longrightarrow> reachable cw rnd st s'"
proof (induction es arbitrary: s)
  case Nil
  then show ?case by simp
next
  case (Cons e es)
  then show ?case by (auto split: sum.splits dest: reachable_handle)
qed

lemma demo_room: "10 < TILE_COUNT 400"
  by (simp add: TILE_COUNT_def GRID_SIZE_def)

lemma demo_loaded_reachable: "reachable 400 demo_random None demo_loaded"
  by (rule reachable_load) (rule demo_load)

lemma demo_started_reachable: "reachable 400 demo_random None demo_started"
  by (rule reachable_handle [OF demo_loaded_reachable, of ClickStart])
    (simp add: handle_def demo_start)

lemma demo_fed_reachable: "reachable 400 demo_random None demo_fed"
  by (rule reachable_handle [OF demo_started_reachable, of TimerFire])
    (simp add: handle_def demo_feed, simp add: demo_started_def)

lemma demo_ended_reachable: "reachable 400 demo_random None demo_ended"
  by (rule reachable_run [OF demo_fed_reachable demo_crash])

lemma demo_approach:
  "run 400 demo_random
     [TimerFire, TimerFire, TimerFire, TimerFire, TimerFire, TimerFire, TimerFire, TimerFire]
     demo_fed = Inr demo_brink"
  by (simp add: handle_def update_def Let_def out_of_board_def TILE_COUNT_def GRID_SIZE_def
      demo_fed_def demo_brink_def)

lemma demo_brink_reachable: "reachable 400 demo_random None demo_brink"
  by (rule reachable_run [OF demo_fed_reachable demo_approach])

section \<open>The snake stays on the board and never overlaps itself\<close>

text \<open>
  Claim C2. In every state reached from the loaded page by any sequence of timer ticks, key
  presses and clicks on the start, pause and restart buttons, every cell of the snake has
  integer coordinates in \<open>[0, N) \<times> [0, N)\<close>, with \<open>N = TILE_COUNT\<close>, and the cells of the
  snake are pairwise distinct. The canvas is taken wide enough for its board to hold
  the default snake, whose head is at (10, 10).
\<close>

theorem snake_on_board_distinct:
  assumes "reachable cw rnd st s" and "10 < TILE_COUNT cw" and "unit_random rnd"
  shows "list_all (on_board cw) (snake s) \<and> distinct (snake s)"
  using reachable_wf [OF assms(1) _ assms(3)] assms(2)
  by (simp add: TILE_COUNT_room wf_game_def wf_snake_def)

theorem snake_on_board_distinct_witness:
  "reachable 400 demo_random None demo_brink \<and> 10 < TILE_COUNT 400 \<and> unit_random demo_random
   \<and> list_all (on_board 400) [(19, 10), (18, 10), (17, 10), (16, 10)]
   \<and> distinct [(19, 10), (18, 10), (17, 10), (16 :: int, 10 :: int)]"
  using snake_on_board_distinct [OF demo_brink_reachable demo_room demo_random_unit]
    demo_brink_reachable demo_room demo_random_unit
  by (simp add: demo_brink_def)

section \<open>Reversing is ignored\<close>

lemma arrow_delta_applied:
  assumes "gameStarted s" "arrow_delta k = Some (a, b)"
    "a = 0 \<longrightarrow> dy s = 0" "b = 0 \<longrightarrow> dx s = 0"
  shows "dx (keydown k s) = a \<and> dy (keydown k s) = b"
  using assms by (cases k) (auto simp: keydown_def arrow_delta_def)

text \<open>
  Claim C9. When the arrow key pressed asks for the exact reverse of the current direction
  \<open>(dx, dy)\<close>, the key handler returns normally and leaves the direction and every other
  variable as they were.
\<close>

theorem reverse_direction_ignored:
  assumes "arrow_delta k = Some (a, b)" and "dx s = - a" and "dy s = - b"
  shows "keydown k s = s \<and> handle cw rnd (KeyDown k) s = Inr s"
  using assms by (cases k) (auto simp: keydown_def arrow_delta_def handle_def)

theorem reverse_direction_ignored_witness:
  "arrow_delta ArrowLeft = Some (- 1, 0) \<and> dx demo_started = - (- 1) \<and> dy demo_started = - 0
   \<and> gameStarted demo_started
   \<and> keydown ArrowLeft demo_started = demo_started
   \<and> handle 400 demo_random (KeyDown ArrowLeft) demo_started = Inr demo_started"
proof -
  have h: "arrow_delta ArrowLeft = Some (- 1, 0)" "dx demo_started = - (- 1)"
    "dy demo_started = - 0" "gameStarted demo_started"
    by (simp_all add: arrow_delta_def demo_started_def)
  from reverse_direction_ignored [OF h(1,2,3), of 400 demo_random] h show ?thesis by simp
qed

section \<open>Where the food is put\<close>

lemma initGame_food:
  assumes "initGame cw rnd s = Inr s'" "0 < cw" "unit_random rnd"
  shows "wf_food cw s'"
proof -
  let ?s0 = "s\<lparr>snake := initial_snake, dx := 1, dy := 0, score := 0, gameOverShown := False\<rparr>"
  from assms(1) have "generateFood cw rnd ?s0 = Some s'"
    by (simp add: initGame_def returns_def split: option.splits)
  from generateFood_Some_D [OF this] obtain n where
    "s' = placed cw rnd ?s0 n" "drawn_cell cw rnd (rng ?s0 + 2 * n) \<notin> set (snake ?s0)"
    by blast
  then show ?thesis
    using drawn_cell_on_board [OF assms(2,3)] by (simp add: wf_food_def)
qed

lemma generateFood_food:
  assumes "generateFood cw rnd s = Some s'" "0 < cw" "unit_random rnd"
  shows "wf_food cw s'" "snake s' = snake s"
proof -
  from generateFood_Some_D [OF assms(1)] obtain n where
    n: "s' = placed cw rnd s n" "drawn_cell cw rnd (rng s + 2 * n) \<notin> set (snake s)"
    by blast
  then show "wf_food cw s'"
    using drawn_cell_on_board [OF assms(2,3)] by (simp add: wf_food_def)
  from n(1) show "snake s' = snake s" by simp
qed

lemma update_eat_food:
  assumes "update cw rnd s = Inr s'" "\<not> gamePaused s" "food s = Some (next_head s)"
    "on_board cw (next_head s)" "next_head s \<notin> set (snake s)" "0 < cw" "unit_random rnd"
  shows "wf_food cw s'" "snake s' = next_head s # snake s"
proof -
  have ne: "snake s \<noteq> []"
  proof
    assume "snake s = []"
    with assms(1,2) show False by (simp add: update_def)
  qed
  let ?s1 = "eat (s\<lparr>snake := next_head s # snake s\<rparr>)"
  from update_eat [OF assms(2) ne assms(4,5,3), of rnd] assms(1)
  obtain s2 where s2: "generateFood cw rnd ?s1 = Some s2" and s': "s' = speed_up s2"
    by (auto split: option.splits)
  from generateFood_food [OF s2 assms(6,7)] show "wf_food cw s'" "snake s' = next_head s # snake s"
    by (simp_all add: s' wf_food_def)
qed

text \<open>
  Claim C4. Whenever \<^verbatim>\<open>generateFood\<close> returns, the food is a cell of the board that is not
  on the snake as it is then; this holds for the call made by \<^verbatim>\<open>initGame\<close> (on start, on
  restart and when the page loads) and for the call made by \<^verbatim>\<open>update\<close> after the snake has
  eaten, where the snake already has its new head. The call returns as soon as the random
  source draws a free cell.
\<close>

theorem food_placed_on_free_cell:
  assumes "0 < cw" and "unit_random rnd"
  shows "(generateFood cw rnd s = Some s1 \<longrightarrow> wf_food cw s1 \<and> snake s1 = snake s)
    \<and> (initGame cw rnd s = Inr s2 \<longrightarrow> wf_food cw s2 \<and> snake s2 = initial_snake)
    \<and> (update cw rnd s = Inr s3 \<and> \<not> gamePaused s \<and> food s = Some (next_head s)
          \<and> on_board cw (next_head s) \<and> next_head s \<notin> set (snake s)
        \<longrightarrow> wf_food cw s3 \<and> snake s3 = next_head s # snake s)
    \<and> (draws_free cw rnd (snake s) (rng s) \<longrightarrow> (\<exists>s'. generateFood cw rnd s = Some s'))"
proof (intro conjI impI)
  assume "generateFood cw rnd s = Some s1"
  from generateFood_food [OF this assms] show "wf_food cw s1" "snake s1 = snake s" .
next
  assume i: "initGame cw rnd s = Inr s2"
  from initGame_food [OF i assms] show "wf_food cw s2" .
  from i have "generateFood cw rnd
     (s\<lparr>snake := initial_snake, dx := 1, dy := 0, score := 0, gameOverShown := False\<rparr>) = Some s2"
    by (simp add: initGame_def returns_def split: option.splits)
  from generateFood_food(2) [OF this assms] show "snake s2 = initial_snake" by simp
next
  assume u: "update cw rnd s = Inr s3 \<and> \<not> gamePaused s \<and> food s = Some (next_head s)
          \<and> on_board cw (next_head s) \<and> next_head s \<notin> set (snake s)"
  then show "wf_food cw s3" "snake s3 = next_head s # snake s"
    using assms by (blast intro: update_eat_food)+
next
  assume "draws_free cw rnd (snake s) (rng s)"
  then show "\<exists>s'. generateFood cw rnd s = Some s'"
    by (simp add: generateFood_returns_iff)
qed

theorem food_placed_on_free_cell_witness:
  "0 < (400 :: nat) \<and> unit_random demo_random
   \<and> generateFood 400 demo_random (eat (demo_started\<lparr>snake := next_head demo_started # snake demo_started\<rparr>))
       = Some (placed 400 demo_random (eat (demo_started\<lparr>snake := next_head demo_started # snake demo_started\<rparr>)) 0)
   \<and> update 400 demo_random demo_started = Inr demo_fed
   \<and> food demo_fed = Some (15, 15) \<and> on_board 400 (15, 15)
   \<and> (15, 15) \<notin> set (snake demo_fed)
   \<and> wf_food 400 demo_fed"
proof -
  have pos: "0 < (400 :: nat)" by simp
  have guard: "\<not> gamePaused demo_started" "food demo_started = Some (next_head demo_started)"
    "on_board 400 (next_head demo_started)" "next_head demo_started \<notin> set (snake demo_started)"
    by (simp_all add: demo_started_def next_head_def on_board_def TILE_COUNT_def GRID_SIZE_def)
  have gf: "generateFood 400 demo_random (eat (demo_started\<lparr>snake := next_head demo_started # snake demo_started\<rparr>))
       = Some (placed 400 demo_random (eat (demo_started\<lparr>snake := next_head demo_started # snake demo_started\<rparr>)) 0)"
    by (rule generateFood_free) (simp add: demo_started_def next_head_def demo_cells)
  have cell: "food demo_fed = Some (15, 15)" "on_board 400 (15, 15)" "(15, 15) \<notin> set (snake demo_fed)"
    by (simp_all add: demo_fed_def on_board_def TILE_COUNT_def GRID_SIZE_def)
  from food_placed_on_free_cell [OF pos demo_random_unit, of demo_started _ _ demo_fed]
    demo_feed guard
  have "wf_food 400 demo_fed" by simp
  with pos demo_random_unit gf demo_feed cell show ?thesis by simp
qed

section \<open>The length of the snake\<close>

lemma update_length:
  assumes "update cw rnd s = Inr s'"
  shows "length (snake s') = length (snake s)
     \<or> (length (snake s') = length (snake s) + 1 \<and> food s = Some (next_head s))"
proof (cases "gamePaused s")
  case True
  with assms show ?thesis by (simp add: update_def)
next
  case np: False
  have ne: "snake s \<noteq> []"
  proof
    assume "snake s = []"
    with np assms show False by (simp add: update_def)
  qed
  show ?thesis
  proof (cases "on_board cw (next_head s) \<and> next_head s \<notin> set (snake s)")
    case False
    then have "update cw rnd s = Inr (endGame s)"
      using np ne by (intro update_collision) auto
    with assms show ?thesis by (auto simp: endGame_def clearInterval_def)
  next
    case ok: True
    show ?thesis
    proof (cases "food s = Some (next_head s)")
      case False
      with np ne ok have "update cw rnd s = Inr (s\<lparr>snake := next_head s # butlast (snake s)\<rparr>)"
        by (intro update_move) auto
      with assms ne show ?thesis by auto
    next
      case True
      let ?s1 = "eat (s\<lparr>snake := next_head s # snake s\<rparr>)"
      from update_eat [OF np ne _ _ True, of cw rnd] ok assms
      obtain s2 where s2: "generateFood cw rnd ?s1 = Some s2" and s': "s' = speed_up s2"
        by (auto split: option.splits)
      from generateFood_Some_D [OF s2] obtain n where "s2 = placed cw rnd ?s1 n" by blast
      with s' True show ?thesis by simp
    qed
  qed
qed

lemma keydown_snake [simp]: "snake (keydown k s) = snake s"
  by (cases k; simp add: keydown_def togglePause_def)

lemma togglePause_snake [simp]: "snake (togglePause s) = snake s"
  by (simp add: togglePause_def)

text \<open>
  Claim C10. In every reachable state the snake has at least 3 cells. A handled event
  that begins a new game (restart, or start when no game is running) resets the snake to
  the 3 default cells; a timer tick keeps the length or, only when the food is on the cell
  ahead, adds exactly 1 to it; every other event leaves the snake as it is.
\<close>

theorem snake_length_never_shrinks:
  assumes "reachable cw rnd st s" and "10 < TILE_COUNT cw" and "unit_random rnd"
    and "handle cw rnd e s = Inr s'"
  shows "3 \<le> length (snake s) \<and> 3 \<le> length (snake s')
    \<and> (if e = ClickRestart \<or> (e = ClickStart \<and> \<not> gameStarted s) then snake s' = initial_snake
        else if e = TimerFire
        then length (snake s') = length (snake s)
          \<or> (length (snake s') = length (snake s) + 1 \<and> food s = Some (next_head s))
        else snake s' = snake s)"
proof -
  have big: "200 < cw" using assms(2) by (simp add: TILE_COUNT_room)
  from reachable_wf [OF assms(1) big assms(3)] have "3 \<le> length (snake s)"
    by (simp add: wf_game_def wf_snake_def)
  moreover from reachable_wf [OF reachable_handle [OF assms(1,4)] big assms(3)]
  have "3 \<le> length (snake s')"
    by (simp add: wf_game_def wf_snake_def)
  moreover have "if e = ClickRestart \<or> (e = ClickStart \<and> \<not> gameStarted s) then snake s' = initial_snake
        else if e = TimerFire
        then length (snake s') = length (snake s)
          \<or> (length (snake s') = length (snake s) + 1 \<and> food s = Some (next_head s))
        else snake s' = snake s"
  proof (cases e)
    case TimerFire
    show ?thesis
    proof (cases "timers s = []")
      case True
      with assms(4) TimerFire show ?thesis by (simp add: handle_def)
    next
      case False
      with assms(4) TimerFire have "update cw rnd s = Inr s'" by (simp add: handle_def)
      from update_length [OF this] TimerFire show ?thesis by simp
    qed
  next
    case (KeyDown k)
    with assms(4) show ?thesis by (auto simp: handle_def)
  next
    case ClickStart
    show ?thesis
    proof (cases "gameStarted s")
      case True
      with assms(4) ClickStart show ?thesis by (simp add: handle_def startGame_def)
    next
      case False
      with assms(4) ClickStart obtain s1 where
        s1: "initGame cw rnd (s\<lparr>gameStarted := True, gamePaused := False\<rparr>) = Inr s1"
        and s': "s' = setInterval (gameSpeed s1) s1"
        by (auto simp: handle_def startGame_def split: sum.splits)
      from initGame_wf(4) [OF s1 big assms(3)] False ClickStart show ?thesis
        by (simp add: s' setInterval_def)
    qed
  next
    case ClickPause
    with assms(4) show ?thesis by (auto simp: handle_def)
  next
    case ClickRestart
    with assms(4) have "initGame cw rnd
       ((clearInterval s)\<lparr>gameStarted := False, gamePaused := False, gameSpeed := 120\<rparr>) = Inr s'"
      by (simp add: handle_def restartGame_def)
    from initGame_wf(4) [OF this big assms(3)] ClickRestart show ?thesis by simp
  qed
  ultimately show ?thesis by blast
qed

theorem snake_length_never_shrinks_witness:
  "reachable 400 demo_random None demo_started \<and> 10 < TILE_COUNT 400 \<and> unit_random demo_random
   \<and> handle 400 demo_random TimerFire demo_started = Inr demo_fed
   \<and> 3 \<le> length (snake demo_started)
   \<and> length (snake demo_fed) = length (snake demo_started) + 1
   \<and> food demo_started = Some (next_head demo_started)"
proof -
  have h: "handle 400 demo_random TimerFire demo_started = Inr demo_fed"
    by (simp add: handle_def demo_feed) (simp add: demo_started_def)
  from snake_length_never_shrinks [OF demo_started_reachable demo_room demo_random_unit h]
  have "3 \<le> length (snake demo_started)"
    "length (snake demo_fed) = length (snake demo_started)
       \<or> (length (snake demo_fed) = length (snake demo_started) + 1
          \<and> food demo_started = Some (next_head demo_started))"
    by simp_all
  moreover have "length (snake demo_fed) \<noteq> length (snake demo_started)"
    by (simp add: demo_fed_def demo_started_def)
  ultimately show ?thesis
    using demo_started_reachable demo_room demo_random_unit h by blast
qed

section \<open>One tick of a running game\<close>

lemma endGame_fields [simp]:
  "snake (endGame s) = snake s" "food (endGame s) = food s" "score (endGame s) = score s"
  "dx (endGame s) = dx s" "dy (endGame s) = dy s" "highScore (endGame s) = highScore s"
  "gameSpeed (endGame s) = gameSpeed s" "phase_of (endGame s) = Ended"
  by (simp_all add: endGame_def clearInterval_def phase_of_def)

text \<open>
  Claim C1. In a reachable state whose phase is running, let \<open>h\<close> be the head moved by the
  direction. Exactly one of three cases applies, and one call of \<^verbatim>\<open>update\<close> does what that
  case says:
  \<^item> \<open>h\<close> is the food cell (then \<open>h\<close> is on the board and not on the snake): the snake becomes
    \<open>h\<close> followed by the whole old snake, the score grows by 10 and the game keeps running;
    the call returns unless the random source never again draws a free cell for the new
    food;
  \<^item> otherwise, \<open>h\<close> is on the board and not on the snake: the snake becomes \<open>h\<close> followed by
    the old snake without its last cell, of the same length, and nothing else changes;
  \<^item> otherwise (\<open>h\<close> is off the board or on the snake): the phase becomes ended, and the
    snake, the score and the food stay as they were.
\<close>

theorem tick_three_ways:
  assumes "reachable cw rnd st s" and "10 < TILE_COUNT cw" and "unit_random rnd"
    and "phase_of s = Running"
  shows "(food s = Some (next_head s) \<longrightarrow>
        on_board cw (next_head s) \<and> next_head s \<notin> set (snake s) \<and>
        (case update cw rnd s of
           Inr s' \<Rightarrow> snake s' = next_head s # snake s \<and> score s' = score s + 10
                    \<and> phase_of s' = Running
         | Inl f \<Rightarrow> f = NoReturn \<and> \<not> draws_free cw rnd (next_head s # snake s) (rng s)))
    \<and> (food s \<noteq> Some (next_head s) \<and> on_board cw (next_head s) \<and> next_head s \<notin> set (snake s) \<longrightarrow>
        update cw rnd s = Inr (s\<lparr>snake := next_head s # butlast (snake s)\<rparr>)
        \<and> length (next_head s # butlast (snake s)) = length (snake s))
    \<and> (food s \<noteq> Some (next_head s) \<and> (\<not> on_board cw (next_head s) \<or> next_head s \<in> set (snake s)) \<longrightarrow>
        update cw rnd s = Inr (endGame s) \<and> phase_of (endGame s) = Ended
        \<and> snake (endGame s) = snake s \<and> score (endGame s) = score s \<and> food (endGame s) = food s)"
proof -
  have big: "200 < cw" using assms(2) by (simp add: TILE_COUNT_room)
  note wf = reachable_wf [OF assms(1) big assms(3)]
  from wf have ne: "snake s \<noteq> []" by (auto simp: wf_game_def wf_snake_def)
  from wf obtain f where f: "food s = Some f" "on_board cw f" "f \<notin> set (snake s)"
    by (auto simp: wf_game_def wf_food_def)
  from assms(4) have np: "\<not> gamePaused s" and started: "gameStarted s"
    by (auto simp: phase_of_def split: if_splits)
  have a: "on_board cw (next_head s) \<and> next_head s \<notin> set (snake s) \<and>
        (case update cw rnd s of
           Inr s' \<Rightarrow> snake s' = next_head s # snake s \<and> score s' = score s + 10
                    \<and> phase_of s' = Running
         | Inl f \<Rightarrow> f = NoReturn \<and> \<not> draws_free cw rnd (next_head s # snake s) (rng s))"
    if eq: "food s = Some (next_head s)"
  proof -
    from eq f have ok: "on_board cw (next_head s)" "next_head s \<notin> set (snake s)" by simp_all
    let ?s1 = "eat (s\<lparr>snake := next_head s # snake s\<rparr>)"
    note u = update_eat [OF np ne ok eq, of rnd]
    show ?thesis
    proof (cases "generateFood cw rnd ?s1")
      case None
      then have "\<not> draws_free cw rnd (snake ?s1) (rng ?s1)"
        using generateFood_returns_iff [of cw rnd ?s1] by simp
      with None u ok show ?thesis by simp
    next
      case (Some s2)
      from generateFood_Some_D [OF Some] obtain n where "s2 = placed cw rnd ?s1 n" by blast
      with Some u ok np started show ?thesis by (simp add: phase_of_def)
    qed
  qed
  have b: "update cw rnd s = Inr (s\<lparr>snake := next_head s # butlast (snake s)\<rparr>)
        \<and> length (next_head s # butlast (snake s)) = length (snake s)"
    if "food s \<noteq> Some (next_head s) \<and> on_board cw (next_head s) \<and> next_head s \<notin> set (snake s)"
    using that np ne by (simp add: update_move)
  have c: "update cw rnd s = Inr (endGame s) \<and> phase_of (endGame s) = Ended
        \<and> snake (endGame s) = snake s \<and> score (endGame s) = score s \<and> food (endGame s) = food s"
    if "food s \<noteq> Some (next_head s) \<and> (\<not> on_board cw (next_head s) \<or> next_head s \<in> set (snake s))"
    using that np ne by (simp add: update_collision)
  from a b c show ?thesis by blast
qed

theorem tick_three_ways_witness:
  "reachable 400 demo_random None demo_started \<and> reachable 400 demo_random None demo_fed
   \<and> reachable 400 demo_random None demo_brink
   \<and> 10 < TILE_COUNT 400 \<and> unit_random demo_random
   \<and> phase_of demo_started = Running \<and> phase_of demo_fed = Running \<and> phase_of demo_brink = Running
   \<and> food demo_started = Some (next_head demo_started)
   \<and> update 400 demo_random demo_started = Inr demo_fed
   \<and> snake demo_fed = next_head demo_started # snake demo_started
   \<and> score demo_fed = score demo_started + 10
   \<and> food demo_fed \<noteq> Some (next_head demo_fed) \<and> on_board 400 (next_head demo_fed)
   \<and> next_head demo_fed \<notin> set (snake demo_fed)
   \<and> update 400 demo_random demo_fed
       = Inr (demo_fed\<lparr>snake := [(12, 10), (11, 10), (10, 10), (9, 10)]\<rparr>)
   \<and> food demo_brink \<noteq> Some (next_head demo_brink) \<and> \<not> on_board 400 (next_head demo_brink)
   \<and> update 400 demo_random demo_brink = Inr demo_ended"
proof -
  have run: "phase_of demo_started = Running" "phase_of demo_fed = Running"
    "phase_of demo_brink = Running"
    by (simp_all add: phase_of_def demo_started_def demo_fed_def demo_brink_def)
  have ga: "food demo_started = Some (next_head demo_started)"
    by (simp add: demo_started_def next_head_def)
  have gb: "food demo_fed \<noteq> Some (next_head demo_fed)" "on_board 400 (next_head demo_fed)"
    "next_head demo_fed \<notin> set (snake demo_fed)"
    by (simp_all add: demo_fed_def next_head_def on_board_def TILE_COUNT_def GRID_SIZE_def)
  have gc: "food demo_brink \<noteq> Some (next_head demo_brink)" "\<not> on_board 400 (next_head demo_brink)"
    by (simp_all add: demo_brink_def next_head_def on_board_def TILE_COUNT_def GRID_SIZE_def)
  from tick_three_ways [OF demo_started_reachable demo_room demo_random_unit run(1)] ga
  have a: "snake demo_fed = next_head demo_started # snake demo_started"
    "score demo_fed = score demo_started + 10"
    by (simp_all add: demo_feed)
  from tick_three_ways [OF demo_fed_reachable demo_room demo_random_unit run(2)] gb
  have "update 400 demo_random demo_fed
      = Inr (demo_fed\<lparr>snake := next_head demo_fed # butlast (snake demo_fed)\<rparr>)"
    by simp
  then have b: "update 400 demo_random demo_fed
      = Inr (demo_fed\<lparr>snake := [(12, 10), (11, 10), (10, 10), (9, 10)]\<rparr>)"
    by (simp add: demo_fed_def next_head_def)
  from tick_three_ways [OF demo_brink_reachable demo_room demo_random_unit run(3)] gc
  have "update 400 demo_random demo_brink = Inr (endGame demo_brink)"
    by simp
  then have c: "update 400 demo_random demo_brink = Inr demo_ended"
    by (simp add: endGame_def clearInterval_def demo_brink_def demo_ended_def)
  from demo_started_reachable demo_fed_reachable demo_brink_reachable demo_room demo_random_unit
    run ga demo_feed a gb b gc c
  show ?thesis by blast
qed

section \<open>The high score\<close>

lemma demo_execution: "execution 400 demo_random None [demo_started, demo_loaded]"
  by (rule execution.handled [OF execution.loaded [OF demo_load], of ClickStart])
    (simp add: handle_def demo_start)

lemma demo_paused_reachable: "reachable 400 demo_random None demo_paused"
  by (rule reachable_handle [OF demo_started_reachable, of ClickPause])
    (simp add: handle_def togglePause_def demo_paused_def demo_started_def)

text \<open>
  Claim C3. Along any run of the page, with a stored high score that is not negative: the
  high score equals the greatest of the stored high score and all scores held so far; it
  never decreases from one state to the next; and a handled event writes to the store
  exactly when the score it leaves exceeds the high score it found, and then it writes
  that score, which becomes the high score.
\<close>

theorem high_score_is_running_maximum:
  assumes "execution cw rnd st (s # ss)" and "0 \<le> stored_high st"
  shows "highScore s = Max (set (stored_high st # map score (s # ss)))
    \<and> sorted (rev (map highScore (s # ss)))
    \<and> (handle cw rnd e s = Inr s' \<longrightarrow>
          highScore s \<le> highScore s'
          \<and> highScore s' = max (highScore s) (score s')
          \<and> setItemLog s' =
              (if highScore s < score s' then setItemLog s @ [score s'] else setItemLog s))"
proof -
  from execution_score [OF assms] have
    inv: "wf_score s" "highScore s = Max (set (stored_high st # map score (s # ss)))"
      "sorted (rev (map highScore (s # ss)))"
    unfolding list.sel by blast+
  have "highScore s \<le> highScore s' \<and> highScore s' = max (highScore s) (score s')
      \<and> setItemLog s' =
          (if highScore s < score s' then setItemLog s @ [score s'] else setItemLog s)"
    if "handle cw rnd e s = Inr s'"
    using handle_score [OF that inv(1)] by (simp add: score_step_def)
  with inv(2,3) show ?thesis by blast
qed

theorem high_score_is_running_maximum_witness:
  "execution 400 demo_random None [demo_started, demo_loaded] \<and> 0 \<le> stored_high None
   \<and> handle 400 demo_random TimerFire demo_started = Inr demo_fed
   \<and> highScore demo_started = 0 \<and> score demo_fed = 10 \<and> highScore demo_fed = 10
   \<and> setItemLog demo_started = [] \<and> setItemLog demo_fed = [10]"
proof -
  have z: "0 \<le> stored_high None" by (simp add: stored_high_def)
  have h: "handle 400 demo_random TimerFire demo_started = Inr demo_fed"
    by (simp add: handle_def demo_feed) (simp add: demo_started_def)
  have v: "highScore demo_started = 0" "score demo_fed = 10" "setItemLog demo_started = []"
    by (simp_all add: demo_started_def demo_fed_def)
  from high_score_is_running_maximum [OF demo_execution z, of TimerFire demo_fed] h v
  have "highScore demo_fed = 10" "setItemLog demo_fed = [10]" by simp_all
  with demo_execution z h v show ?thesis by simp
qed

section \<open>Restart and start\<close>

text \<open>
  After a restart the game is not running: in the sample game, restarting from the ended
  state gives a state in phase idle with no timer armed.
\<close>

theorem restart_leaves_idle_counterexample:
  "reachable 400 demo_random None demo_ended \<and> phase_of demo_ended = Ended
   \<and> restartGame 400 demo_random demo_ended = Inr demo_restarted
   \<and> phase_of demo_restarted = Idle \<and> phase_of demo_restarted \<noteq> Running
   \<and> timers demo_restarted = []"
proof -
  have "restartGame 400 demo_random demo_ended = Inr demo_restarted"
    by (simp add: restartGame_def initGame_def returns_def generateFood_free placed_def
        demo_cells initial_snake_def clearInterval_def demo_ended_def demo_restarted_def)
  then show ?thesis
    using demo_ended_reachable by (simp add: phase_of_def demo_ended_def demo_restarted_def)
qed

text \<open>
  Claim C6, as the code has it. From every state, and so from every ended one,
  \<^verbatim>\<open>restartGame\<close> gives a state whose phase is idle (not started, not paused, the
  game-over banner hidden), whose snake is the default
  [(10, 10), (9, 10), (8, 10)] with direction (1, 0), whose score is 0 and whose speed is
  the initial 120 ms, and in which the timer of the game is no longer armed. It returns
  provided the random source draws a cell off the default snake.
\<close>

theorem restart_resets_to_idle:
  assumes "draws_free cw rnd initial_snake (rng s)"
  shows "\<exists>s'. restartGame cw rnd s = Inr s' \<and> phase_of s' = Idle
    \<and> \<not> gameStarted s' \<and> \<not> gamePaused s' \<and> \<not> gameOverShown s'
    \<and> snake s' = initial_snake \<and> dx s' = 1 \<and> dy s' = 0 \<and> score s' = 0 \<and> gameSpeed s' = 120
    \<and> timers s' = filter (\<lambda>t. Some (fst t) \<noteq> gameLoop s) (timers s)"
proof -
  let ?s0 = "((clearInterval s)\<lparr>gameStarted := False, gamePaused := False, gameSpeed := 120\<rparr>)
      \<lparr>snake := initial_snake, dx := 1, dy := 0, score := 0, gameOverShown := False\<rparr>"
  from assms have "draws_free cw rnd (snake ?s0) (rng ?s0)" by (simp add: clearInterval_def)
  then obtain s' where s': "generateFood cw rnd ?s0 = Some s'"
    using generateFood_returns_iff [of cw rnd ?s0] by blast
  from generateFood_Some_D [OF s'] obtain n where "s' = placed cw rnd ?s0 n" by blast
  then have "phase_of s' = Idle \<and> \<not> gameStarted s' \<and> \<not> gamePaused s' \<and> \<not> gameOverShown s'
      \<and> snake s' = initial_snake \<and> dx s' = 1 \<and> dy s' = 0
      \<and> score s' = 0 \<and> gameSpeed s' = 120
      \<and> timers s' = filter (\<lambda>t. Some (fst t) \<noteq> gameLoop s) (timers s)"
    by (simp add: phase_of_def clearInterval_def)
  moreover from s' have "restartGame cw rnd s = Inr s'"
    by (simp add: restartGame_def initGame_def returns_def)
  ultimately show ?thesis by blast
qed

theorem restart_resets_to_idle_witness:
  "draws_free 400 demo_random initial_snake (rng demo_ended) \<and> phase_of demo_ended = Ended
   \<and> (\<exists>s'. restartGame 400 demo_random demo_ended = Inr s' \<and> phase_of s' = Idle
        \<and> snake s' = initial_snake \<and> score s' = 0 \<and> gameSpeed s' = 120 \<and> timers s' = [])"
proof -
  have "drawn_cell 400 demo_random (rng demo_ended + 2 * 0) \<notin> set initial_snake"
    by (simp add: demo_ended_def demo_cells initial_snake_def)
  then have free: "draws_free 400 demo_random initial_snake (rng demo_ended)"
    unfolding draws_free_def by blast
  have "timers demo_ended = []" "phase_of demo_ended = Ended"
    by (simp_all add: demo_ended_def phase_of_def)
  with restart_resets_to_idle [OF free] free show ?thesis by auto
qed

text \<open>
  What \<^verbatim>\<open>startGame\<close> does when no game is running: a default snake heading right, score 0,
  new food, phase running, and a timer armed with the speed the state already has. In an
  idle state that speed is the initial 120 ms.
\<close>

lemma startGame_effect:
  assumes "\<not> gameStarted s" "draws_free cw rnd initial_snake (rng s)"
  shows "\<exists>s'. startGame cw rnd s = Inr s' \<and> phase_of s' = Running
    \<and> snake s' = initial_snake \<and> dx s' = 1 \<and> dy s' = 0 \<and> score s' = 0
    \<and> (\<exists>f. food s' = Some f \<and> f \<notin> set initial_snake)
    \<and> gameSpeed s' = gameSpeed s
    \<and> timers s' = timers s @ [(nextTimer s, gameSpeed s)]"
proof -
  let ?s0 = "(s\<lparr>gameStarted := True, gamePaused := False\<rparr>)
      \<lparr>snake := initial_snake, dx := 1, dy := 0, score := 0, gameOverShown := False\<rparr>"
  from assms(2) have "draws_free cw rnd (snake ?s0) (rng ?s0)" by simp
  then obtain s1 where s1: "generateFood cw rnd ?s0 = Some s1"
    using generateFood_returns_iff [of cw rnd ?s0] by blast
  from generateFood_Some_D [OF s1] obtain n where
    n: "s1 = placed cw rnd ?s0 n" "drawn_cell cw rnd (rng ?s0 + 2 * n) \<notin> set (snake ?s0)"
    by blast
  from s1 assms(1) have "startGame cw rnd s = Inr (setInterval (gameSpeed s1) s1)"
    by (simp add: startGame_def initGame_def returns_def)
  moreover from n have "phase_of (setInterval (gameSpeed s1) s1) = Running
    \<and> snake (setInterval (gameSpeed s1) s1) = initial_snake
    \<and> dx (setInterval (gameSpeed s1) s1) = 1 \<and> dy (setInterval (gameSpeed s1) s1) = 0
    \<and> score (setInterval (gameSpeed s1) s1) = 0
    \<and> (\<exists>f. food (setInterval (gameSpeed s1) s1) = Some f \<and> f \<notin> set initial_snake)
    \<and> gameSpeed (setInterval (gameSpeed s1) s1) = gameSpeed s
    \<and> timers (setInterval (gameSpeed s1) s1) = timers s @ [(nextTimer s, gameSpeed s)]"
    by (simp add: setInterval_def phase_of_def)
  ultimately show ?thesis by blast
qed

lemma idle_speed_is_initial:
  assumes "reachable cw rnd st s" "10 < TILE_COUNT cw" "unit_random rnd" "phase_of s = Idle"
  shows "gameSpeed s = 120 \<and> timers s = []"
  using reachable_wf [OF assms(1) _ assms(3)] assms(2,4)
  by (auto simp: TILE_COUNT_room wf_game_def wf_timer_def phase_of_def split: if_splits)

text \<open>
  Claim C7. \<^verbatim>\<open>startGame\<close> is accepted in the ended state of the sample game, where one food
  was eaten and the speed is 118 ms. It arms the timer with 118 ms, not with the initial
  120 ms: unlike \<^verbatim>\<open>restartGame\<close>, it does not reset the speed.
\<close>

theorem start_after_game_over_keeps_speed:
  "reachable 400 demo_random None demo_ended \<and> phase_of demo_ended = Ended
   \<and> \<not> gameStarted demo_ended \<and> gameSpeed demo_ended = 118
   \<and> startGame 400 demo_random demo_ended = Inr demo_second
   \<and> phase_of demo_second = Running \<and> gameSpeed demo_second = 118
   \<and> timers demo_second = [(3, 118)]"
proof -
  have "startGame 400 demo_random demo_ended = Inr demo_second"
    by (simp add: startGame_def initGame_def returns_def generateFood_free placed_def
        demo_cells initial_snake_def demo_ended_def demo_second_def setInterval_def)
  then show ?thesis
    using demo_ended_reachable by (simp add: phase_of_def demo_ended_def demo_second_def)
qed

section \<open>Ticks outside a running game\<close>

lemma update_started:
  assumes "update cw rnd s = Inr s'" "gameStarted s"
  shows "gameStarted s' \<or> (s' = endGame s \<and> \<not> gamePaused s \<and>
      (\<not> on_board cw (next_head s) \<or> next_head s \<in> set (snake s)))"
proof (cases "gamePaused s")
  case True
  with assms show ?thesis by (simp add: update_def)
next
  case np: False
  have ne: "snake s \<noteq> []"
  proof
    assume "snake s = []"
    with np assms show False by (simp add: update_def)
  qed
  show ?thesis
  proof (cases "on_board cw (next_head s) \<and> next_head s \<notin> set (snake s)")
    case False
    then have "update cw rnd s = Inr (endGame s)"
      using np ne by (intro update_collision) auto
    with assms False np show ?thesis by auto
  next
    case ok: True
    show ?thesis
    proof (cases "food s = Some (next_head s)")
      case False
      with np ne ok have "update cw rnd s = Inr (s\<lparr>snake := next_head s # butlast (snake s)\<rparr>)"
        by (intro update_move) auto
      with assms show ?thesis by auto
    next
      case True
      let ?s1 = "eat (s\<lparr>snake := next_head s # snake s\<rparr>)"
      from update_eat [OF np ne _ _ True, of cw rnd] ok assms
      obtain s2 where s2: "generateFood cw rnd ?s1 = Some s2" and s': "s' = speed_up s2"
        by (auto split: option.splits)
      from generateFood_Some_D [OF s2] obtain n where "s2 = placed cw rnd ?s1 n" by blast
      with s' assms(2) show ?thesis by simp
    qed
  qed
qed

lemma next_head_endGame [simp]: "next_head (endGame s) = next_head s"
  by (simp add: next_head_def)

lemma keydown_started [simp]: "gameStarted (keydown k s) = gameStarted s"
  by (cases k; simp add: keydown_def togglePause_def)

lemma keydown_idle: "\<not> gameStarted s \<Longrightarrow> keydown k s = s"
  by (simp add: keydown_def)

lemma handle_ended:
  assumes "handle cw rnd e s = Inr s'" "wf_timer s" "wf_ended cw s"
  shows "wf_ended cw s'"
proof (cases e)
  case TimerFire
  show ?thesis
  proof (cases "timers s = []")
    case True
    with assms TimerFire show ?thesis by (simp add: handle_def)
  next
    case False
    with assms(2) have st: "gameStarted s" by (auto simp: wf_timer_def split: if_splits)
    from False assms(1) TimerFire have "update cw rnd s = Inr s'" by (simp add: handle_def)
    from update_started [OF this st] show ?thesis
      by (auto simp: wf_ended_def)
  qed
next
  case (KeyDown k)
  with assms show ?thesis
    by (cases "gameStarted s") (auto simp: handle_def wf_ended_def keydown_idle)
next
  case ClickStart
  show ?thesis
  proof (cases "gameStarted s")
    case True
    with assms ClickStart show ?thesis by (simp add: handle_def startGame_def)
  next
    case False
    with assms(1) ClickStart obtain s1 where
      s1: "initGame cw rnd (s\<lparr>gameStarted := True, gamePaused := False\<rparr>) = Inr s1"
      and s': "s' = setInterval (gameSpeed s1) s1"
      by (auto simp: handle_def startGame_def split: sum.splits)
    from s1 have "generateFood cw rnd ((s\<lparr>gameStarted := True, gamePaused := False\<rparr>)
        \<lparr>snake := initial_snake, dx := 1, dy := 0, score := 0, gameOverShown := False\<rparr>) = Some s1"
      by (simp add: initGame_def returns_def split: option.splits)
    from generateFood_Some_D [OF this] obtain n where "s1 = placed cw rnd
        ((s\<lparr>gameStarted := True, gamePaused := False\<rparr>)
        \<lparr>snake := initial_snake, dx := 1, dy := 0, score := 0, gameOverShown := False\<rparr>) n"
      by blast
    then show ?thesis by (simp add: s' setInterval_def wf_ended_def)
  qed
next
  case ClickPause
  with assms show ?thesis
    by (cases "gameStarted s") (auto simp: handle_def wf_ended_def togglePause_def)
next
  case ClickRestart
  with assms(1) have "generateFood cw rnd
      (((clearInterval s)\<lparr>gameStarted := False, gamePaused := False, gameSpeed := 120\<rparr>)
        \<lparr>snake := initial_snake, dx := 1, dy := 0, score := 0, gameOverShown := False\<rparr>) = Some s'"
    by (simp add: handle_def restartGame_def initGame_def returns_def split: option.splits)
  from generateFood_Some_D [OF this] obtain n where "s' = placed cw rnd
      (((clearInterval s)\<lparr>gameStarted := False, gamePaused := False, gameSpeed := 120\<rparr>)
        \<lparr>snake := initial_snake, dx := 1, dy := 0, score := 0, gameOverShown := False\<rparr>) n"
    by blast
  then show ?thesis by (simp add: wf_ended_def)
qed

lemma execution_ended:
  assumes "execution cw rnd st ss" "200 < cw" "unit_random rnd"
  shows "wf_ended cw (hd ss)"
  using assms
proof (induction rule: execution.induct)
  case (loaded s)
  from initGame_wf(15) [OF loaded.hyps [unfolded load_def] loaded.prems]
  show ?case by (simp add: wf_ended_def)
next
  case (handled s ss e s')
  from execution_wf [OF handled.hyps(1) handled.prems] have "wf_timer s"
    by (simp add: wf_game_def)
  moreover from handled.IH [OF handled.prems] have "wf_ended cw s" by simp
  ultimately show ?case using handle_ended [OF handled.hyps(2)] by simp
qed

lemma endGame_ended:
  assumes "\<not> gameStarted s" "gameOverShown s" "timers s = []"
  shows "endGame s = s"
  using assms by (cases s) (simp add: endGame_def clearInterval_def)

lemma update_ended:
  assumes "reachable cw rnd st s" "200 < cw" "unit_random rnd" "phase_of s = Ended"
  shows "update cw rnd s = Inr s"
proof -
  from assms(4) have ph: "\<not> gameStarted s" "gameOverShown s"
    by (auto simp: phase_of_def split: if_splits)
  from reachable_wf [OF assms(1,2,3)] ph have t: "timers s = []" "\<not> gamePaused s" "snake s \<noteq> []"
    by (auto simp: wf_game_def wf_timer_def wf_snake_def)
  from assms(1) obtain ss where "execution cw rnd st (s # ss)" by (auto simp: reachable_def)
  from execution_ended [OF this assms(2,3)] ph
  have "\<not> on_board cw (next_head s) \<or> next_head s \<in> set (snake s)"
    by (simp add: wf_ended_def)
  from update_collision [OF t(2,3) this] endGame_ended [OF ph t(1)] show ?thesis by simp
qed

text \<open>
  \<^verbatim>\<open>update\<close> tests only the pause flag, not \<^verbatim>\<open>gameStarted\<close>. Called in the idle state of the
  sample game, it moves the snake one cell to the right.
\<close>

theorem update_moves_idle_snake_counterexample:
  "reachable 400 demo_random None demo_loaded \<and> phase_of demo_loaded = Idle
   \<and> update 400 demo_random demo_loaded
       = Inr (demo_loaded\<lparr>snake := [(11, 10), (10, 10), (9, 10)]\<rparr>)
   \<and> update 400 demo_random demo_loaded \<noteq> Inr demo_loaded"
proof -
  have "update 400 demo_random demo_loaded
       = Inr (demo_loaded\<lparr>snake := [(11, 10), (10, 10), (9, 10)]\<rparr>)"
    by (simp add: update_def Let_def out_of_board_def TILE_COUNT_def GRID_SIZE_def demo_loaded_def)
  moreover have "demo_loaded\<lparr>snake := [(11, 10), (10, 10), (9, 10)]\<rparr> \<noteq> demo_loaded"
    by (simp add: demo_loaded_def)
  ultimately show ?thesis
    using demo_loaded_reachable by (simp add: phase_of_def demo_loaded_def)
qed

text \<open>
  Claim C8, as the code has it. In a reachable state whose phase is paused or ended, a call
  of \<^verbatim>\<open>update\<close> returns and leaves the whole state as it was: when paused it returns at
  once, when ended it finds the same collision again and \<^verbatim>\<open>endGame\<close> has nothing left to
  change. In a reachable idle or ended state no timer is armed, a timer being armed
  exactly while \<^verbatim>\<open>gameStarted\<close> holds; so in every phase but running a timer tick leaves
  the state as it was.
\<close>

theorem no_tick_unless_running:
  assumes "reachable cw rnd st s" and "10 < TILE_COUNT cw" and "unit_random rnd"
  shows "(phase_of s = Paused \<or> phase_of s = Ended \<longrightarrow> update cw rnd s = Inr s)
    \<and> (phase_of s = Idle \<or> phase_of s = Ended \<longrightarrow> timers s = [])
    \<and> (phase_of s \<noteq> Running \<longrightarrow> handle cw rnd TimerFire s = Inr s)
    \<and> (timers s = [] \<longleftrightarrow> \<not> gameStarted s)"
proof -
  have big: "200 < cw" using assms(2) by (simp add: TILE_COUNT_room)
  from reachable_wf [OF assms(1) big assms(3)] have wt: "wf_timer s" by (simp add: wf_game_def)
  have p: "update cw rnd s = Inr s" if "phase_of s = Paused \<or> phase_of s = Ended"
  proof (cases "phase_of s = Ended")
    case True
    then show ?thesis by (rule update_ended [OF assms(1) big assms(3)])
  next
    case False
    with that have "gamePaused s" by (auto simp: phase_of_def split: if_splits)
    then show ?thesis by (simp add: update_def)
  qed
  have t: "timers s = [] \<longleftrightarrow> \<not> gameStarted s"
    using wt by (auto simp: wf_timer_def split: if_splits)
  have i: "timers s = []" if "phase_of s = Idle \<or> phase_of s = Ended"
    using that t by (auto simp: phase_of_def split: if_splits)
  have h: "handle cw rnd TimerFire s = Inr s" if "phase_of s \<noteq> Running"
  proof (cases "phase_of s = Paused")
    case True
    with p show ?thesis by (simp add: handle_def)
  next
    case False
    with that have "phase_of s = Idle \<or> phase_of s = Ended" by (cases "phase_of s") simp_all
    with i show ?thesis by (simp add: handle_def)
  qed
  from p i h t show ?thesis by blast
qed

theorem no_tick_unless_running_witness:
  "reachable 400 demo_random None demo_paused \<and> reachable 400 demo_random None demo_ended
   \<and> 10 < TILE_COUNT 400 \<and> unit_random demo_random
   \<and> phase_of demo_paused = Paused \<and> update 400 demo_random demo_paused = Inr demo_paused
   \<and> phase_of demo_ended = Ended \<and> update 400 demo_random demo_ended = Inr demo_ended
   \<and> timers demo_ended = []
   \<and> handle 400 demo_random TimerFire demo_ended = Inr demo_ended"
proof -
  have ph: "phase_of demo_paused = Paused" "phase_of demo_ended = Ended"
    by (simp_all add: phase_of_def demo_paused_def demo_started_def demo_ended_def)
  from no_tick_unless_running [OF demo_paused_reachable demo_room demo_random_unit] ph(1)
  have a: "update 400 demo_random demo_paused = Inr demo_paused" by simp
  from no_tick_unless_running [OF demo_ended_reachable demo_room demo_random_unit] ph(2)
  have b: "update 400 demo_random demo_ended = Inr demo_ended" "timers demo_ended = []"
    "handle 400 demo_random TimerFire demo_ended = Inr demo_ended"
    by simp_all
  from demo_paused_reachable demo_ended_reachable demo_room demo_random_unit ph a b
  show ?thesis by blast
qed

end
